theory Spec2Isabelle
  imports Main "HOL-Library.Monad_Syntax" "HOL-Library.Sublist"
begin

section \<open>Nodes\<close>

text \<open>
  The package \<open>internal\<close> declares \<open>Direction\<close> and \<open>Color\<close> as integer types with two
  named constants each; only these constants are ever passed around, so both are
  two-valued datatypes here.
\<close>

datatype Direction = Left | Right

datatype Color = ColorBlack | ColorRed

text \<open>
  A \<open>*Node[K, V]\<close> is either the nil pointer or a node with a key, a value, the two
  children \<open>children[Left]\<close> and \<open>children[Right]\<close> and the colour flag.  The field
  \<open>parent\<close> is set to nil by \<open>NewNode\<close> and never read or written again, so it is
  left out.  Every node is owned by exactly one parent link, hence the in-place
  updates of the source are modelled by returning the updated node.

  A nil-pointer dereference makes the Go runtime panic.  Every function that can
  dereference returns an \<open>option\<close>, and \<open>None\<close> is that panic.
\<close>

datatype ('k, 'v) node =
  Nil
  | Node (Key: 'k) (Value: 'v) (isBlack: bool) (lchild: "('k, 'v) node") (rchild: "('k, 'v) node")

text \<open>\<open>1 - direction\<close>, the index of the other child.\<close>

fun opposite :: "Direction \<Rightarrow> Direction" where
  "opposite Left = Right"
| "opposite Right = Left"

text \<open>\<open>n.children[d]\<close> as a read.\<close>

fun children :: "('k, 'v) node \<Rightarrow> Direction \<Rightarrow> ('k, 'v) node option" where
  "children Nil d = None"
| "children (Node k v b l r) Left = Some l"
| "children (Node k v b l r) Right = Some r"

text \<open>\<open>n.children[d] = c\<close>, the assignment.\<close>

fun set_children :: "('k, 'v) node \<Rightarrow> Direction \<Rightarrow> ('k, 'v) node \<Rightarrow> ('k, 'v) node option" where
  "set_children Nil d c = None"
| "set_children (Node k v b l r) Left c = Some (Node k v b c r)"
| "set_children (Node k v b l r) Right c = Some (Node k v b l c)"

text \<open>The methods \<open>Left()\<close> and \<open>Right()\<close>.\<close>

definition Left_of :: "('k, 'v) node \<Rightarrow> ('k, 'v) node option" where
  "Left_of n = children n Left"

definition Right_of :: "('k, 'v) node \<Rightarrow> ('k, 'v) node option" where
  "Right_of n = children n Right"

text \<open>Reads and writes of the scalar fields through a pointer.\<close>

fun Key_of :: "('k, 'v) node \<Rightarrow> 'k option" where
  "Key_of Nil = None"
| "Key_of (Node k v b l r) = Some k"

fun Value_of :: "('k, 'v) node \<Rightarrow> 'v option" where
  "Value_of Nil = None"
| "Value_of (Node k v b l r) = Some v"

fun isBlack_of :: "('k, 'v) node \<Rightarrow> bool option" where
  "isBlack_of Nil = None"
| "isBlack_of (Node k v b l r) = Some b"

fun set_Key :: "('k, 'v) node \<Rightarrow> 'k \<Rightarrow> ('k, 'v) node option" where
  "set_Key Nil k' = None"
| "set_Key (Node k v b l r) k' = Some (Node k' v b l r)"

fun set_Value :: "('k, 'v) node \<Rightarrow> 'v \<Rightarrow> ('k, 'v) node option" where
  "set_Value Nil v' = None"
| "set_Value (Node k v b l r) v' = Some (Node k v' b l r)"

fun set_isBlack :: "('k, 'v) node \<Rightarrow> bool \<Rightarrow> ('k, 'v) node option" where
  "set_isBlack Nil b' = None"
| "set_isBlack (Node k v b l r) b' = Some (Node k v b' l r)"

definition NewNode :: "'k \<Rightarrow> 'v \<Rightarrow> ('k, 'v) node" where
  "NewNode key val = Node key val False Nil Nil"

section \<open>Search\<close>

text \<open>
  The loop of \<open>Search\<close> walks down one child per iteration, so it is a structural
  recursion.  The zero value of the value type is the \<open>0\<close> of class \<open>zero\<close>.
\<close>

fun Search :: "('k::linorder, 'v::zero) node \<Rightarrow> 'k \<Rightarrow> 'v \<times> bool" where
  "Search Nil key = (0, False)"
| "Search (Node k v b l r) key =
     (if key = k then (v, True)
      else if key < k then Search r key
      else Search l key)"

fun SearchMin :: "('k, 'v) node \<Rightarrow> ('k, 'v) node option" where
  "SearchMin Nil = None"
| "SearchMin (Node k v b l r) = (if l = Nil then Some (Node k v b l r) else SearchMin l)"

section \<open>Rotation and the colour helpers\<close>

fun IsRed :: "('k, 'v) node \<Rightarrow> bool" where
  "IsRed Nil = False"
| "IsRed (Node k v b l r) = (\<not> b)"

text \<open>
  \<open>Rotate\<close> reads the pivot \<open>x\<close>, moves the pivot's inner child over to the old
  root, hangs the old root below the pivot and swaps the colours.  The old root is
  recoloured after it became a child of \<open>x\<close>; through the pointer \<open>x\<close> sees that
  update, so the model recolours first and links afterwards.
\<close>

definition Rotate :: "('k, 'v) node \<Rightarrow> Direction \<Rightarrow> ('k, 'v) node option" where
  "Rotate root direction = do {
     x \<leftarrow> children root (opposite direction);
     inner \<leftarrow> children x direction;
     root1 \<leftarrow> set_children root (opposite direction) inner;
     rootBlack \<leftarrow> isBlack_of root1;
     root2 \<leftarrow> set_isBlack root1 False;
     x1 \<leftarrow> set_children x direction root2;
     set_isBlack x1 rootBlack
   }"

text \<open>One colour toggle through a pointer that was checked to be non-nil.\<close>

fun toggle :: "('k, 'v) node \<Rightarrow> ('k, 'v) node" where
  "toggle Nil = Nil"
| "toggle (Node k v b l r) = Node k v (\<not> b) l r"

fun FlipColor :: "('k, 'v) node \<Rightarrow> ('k, 'v) node option" where
  "FlipColor Nil = None"
| "FlipColor (Node k v b l r) = Some (Node k v (\<not> b) (toggle l) (toggle r))"

text \<open>
  The conditions of the source use the short-circuit \<open>&&\<close>: the right operand, and any
  dereference in it, is evaluated only when the left operand is true.
\<close>

definition FixUp :: "('k, 'v) node \<Rightarrow> ('k, 'v) node option" where
  "FixUp root = do {
     r \<leftarrow> Right_of root;
     root1 \<leftarrow> (if IsRed r then Rotate root Left else Some root);
     l1 \<leftarrow> Left_of root1;
     twoReds \<leftarrow> (if IsRed l1 then do { ll \<leftarrow> Left_of l1; Some (IsRed ll) } else Some False);
     root2 \<leftarrow> (if twoReds then Rotate root1 Right else Some root1);
     l2 \<leftarrow> Left_of root2;
     r2 \<leftarrow> Right_of root2;
     if IsRed l2 \<and> IsRed r2 then FlipColor root2 else Some root2
   }"

definition MoveRedLeft :: "('k, 'v) node \<Rightarrow> ('k, 'v) node option" where
  "MoveRedLeft root = do {
     root1 \<leftarrow> FlipColor root;
     r \<leftarrow> Right_of root1;
     rl \<leftarrow> Left_of r;
     if IsRed rl then do {
       r' \<leftarrow> Rotate r Right;
       root2 \<leftarrow> set_children root1 Right r';
       root3 \<leftarrow> Rotate root2 Left;
       FlipColor root3
     } else Some root1
   }"

definition MoveRedRight :: "('k, 'v) node \<Rightarrow> ('k, 'v) node option" where
  "MoveRedRight root = do {
     root1 \<leftarrow> FlipColor root;
     l \<leftarrow> Left_of root1;
     ll \<leftarrow> Left_of l;
     if IsRed ll then Rotate root1 Right else Some root1
   }"

fun SetColor :: "('k, 'v) node \<Rightarrow> Color \<Rightarrow> ('k, 'v) node option" where
  "SetColor node ColorBlack = set_isBlack node True"
| "SetColor node ColorRed = set_isBlack node False"

section \<open>Insertion\<close>

fun Insert :: "('k::linorder, 'v) node \<Rightarrow> 'k \<Rightarrow> 'v \<Rightarrow> ('k, 'v) node option" where
  "Insert Nil key val = Some (NewNode key val)"
| "Insert (Node k v b l r) key val =
     (if key = k then FixUp (Node k val b l r)
      else if key < k then do { l' \<leftarrow> Insert l key val; FixUp (Node k v b l' r) }
      else do { r' \<leftarrow> Insert r key val; FixUp (Node k v b l r') })"

section \<open>Deletion\<close>

text \<open>
  \<open>Delete\<close> and \<open>DeleteMin\<close> recurse into a child of the root as it is after
  \<open>MoveRedLeft\<close>, \<open>Rotate\<close> or \<open>MoveRedRight\<close>.  None of these changes the number of
  nodes, which is what makes the recursion terminate.
\<close>

lemma Rotate_simps [simp]:
  "Rotate Nil d = None"
  "Rotate (Node k v b Nil r) Right = None"
  "Rotate (Node k v b l Nil) Left = None"
  "Rotate (Node k v b (Node lk lv lb ll lr) r) Right = Some (Node lk lv b ll (Node k v False lr r))"
  "Rotate (Node k v b l (Node rk rv rb rl rr)) Left = Some (Node rk rv b (Node k v False l rl) rr)"
  by (simp_all add: Rotate_def)

lemma toggle_size [simp]: "size (toggle n) = size n"
  by (cases n) auto

lemma children_size: "children n d = Some c \<Longrightarrow> size c < size n"
  by (cases n; cases d) auto

lemma FlipColor_size: "FlipColor n = Some n' \<Longrightarrow> size n' = size n"
  by (cases n) auto

lemma Rotate_size: "Rotate n d = Some n' \<Longrightarrow> size n' = size n"
  by (cases n; cases d; cases "lchild n"; cases "rchild n") auto

lemma MoveRedLeft_size: "MoveRedLeft n = Some n' \<Longrightarrow> size n' = size n"
proof (cases n)
  case Nil
  then show "MoveRedLeft n = Some n' \<Longrightarrow> size n' = size n"
    by (simp add: MoveRedLeft_def)
next
  case (Node k v b l r)
  assume "MoveRedLeft n = Some n'"
  then show "size n' = size n" using Node
    by (cases r; cases "lchild r"; cases "lchild (lchild r)")
      (auto simp: MoveRedLeft_def Left_of_def Right_of_def split: if_splits bind_splits)
qed

lemma MoveRedRight_size: "MoveRedRight n = Some n' \<Longrightarrow> size n' = size n"
proof (cases n)
  case Nil
  then show "MoveRedRight n = Some n' \<Longrightarrow> size n' = size n"
    by (simp add: MoveRedRight_def)
next
  case (Node k v b l r)
  assume "MoveRedRight n = Some n'"
  then show "size n' = size n" using Node
    by (cases l; cases "lchild l")
      (auto simp: MoveRedRight_def Left_of_def split: if_splits bind_splits)
qed

function DeleteMin :: "('k, 'v) node \<Rightarrow> ('k, 'v) node option" where
  "DeleteMin root = do {
     l \<leftarrow> Left_of root;
     if l = Nil then Some Nil
     else do {
       bothBlack \<leftarrow> (if \<not> IsRed l then do { ll \<leftarrow> Left_of l; Some (\<not> IsRed ll) } else Some False);
       root1 \<leftarrow> (if bothBlack then MoveRedLeft root else Some root);
       l1 \<leftarrow> Left_of root1;
       l' \<leftarrow> DeleteMin l1;
       root2 \<leftarrow> set_children root1 Left l';
       FixUp root2
     }
   }"
  by pat_completeness auto
termination
  apply (relation "measure size")
   apply simp
  apply (auto simp: Left_of_def split: if_splits dest!: MoveRedLeft_size children_size)
  done

declare DeleteMin.simps [simp del]

function Delete :: "('k::linorder, 'v) node \<Rightarrow> 'k \<Rightarrow> ('k, 'v) node option" where
  "Delete root key = do {
     rootKey \<leftarrow> Key_of root;
     if key < rootKey then do {
       l \<leftarrow> Left_of root;
       bothBlack \<leftarrow> (if \<not> IsRed l then do { ll \<leftarrow> Left_of l; Some (\<not> IsRed ll) } else Some False);
       root1 \<leftarrow> (if bothBlack then MoveRedLeft root else Some root);
       l1 \<leftarrow> Left_of root1;
       l' \<leftarrow> Delete l1 key;
       root2 \<leftarrow> set_children root1 Left l';
       FixUp root2
     } else do {
       l \<leftarrow> Left_of root;
       root1 \<leftarrow> (if IsRed l then Rotate root Right else Some root);
       key1 \<leftarrow> Key_of root1;
       r1 \<leftarrow> Right_of root1;
       if key = key1 \<and> r1 = Nil then Some Nil
       else do {
         l1 \<leftarrow> Left_of root1;
         root2 \<leftarrow> (if \<not> IsRed l1 \<and> \<not> IsRed r1 then MoveRedRight root1 else Some root1);
         key2 \<leftarrow> Key_of root2;
         r2 \<leftarrow> Right_of root2;
         if key = key2 then do {
           minNode \<leftarrow> SearchMin r2;
           minKey \<leftarrow> Key_of minNode;
           root3 \<leftarrow> set_Key root2 minKey;
           minValue \<leftarrow> Value_of minNode;
           root4 \<leftarrow> set_Value root3 minValue;
           r' \<leftarrow> DeleteMin r2;
           root5 \<leftarrow> set_children root4 Right r';
           FixUp root5
         } else do {
           r' \<leftarrow> Delete r2 key;
           root3 \<leftarrow> set_children root2 Right r';
           FixUp root3
         }
       }
     }
   }"
  by pat_completeness auto
termination
  apply (relation "measure (\<lambda>(root, key). size root)")
    apply simp
   apply (auto simp: Left_of_def Right_of_def split: if_splits
      dest!: MoveRedLeft_size MoveRedRight_size Rotate_size children_size)
  done

declare Delete.simps [simp del]

section \<open>The public handle\<close>

record ('k, 'v) Tree =
  root :: "('k, 'v) node"

text \<open>The zero value of the struct: the handle of the empty tree.\<close>

definition empty_Tree :: "('k, 'v) Tree" where
  "empty_Tree = \<lparr>root = Nil\<rparr>"

definition Tree_Search :: "('k::linorder, 'v::zero) Tree \<Rightarrow> 'k \<Rightarrow> 'v \<times> bool" where
  "Tree_Search t key = Search (root t) key"

definition Tree_Insert :: "('k::linorder, 'v) Tree \<Rightarrow> 'k \<Rightarrow> 'v \<Rightarrow> ('k, 'v) Tree option" where
  "Tree_Insert t key val = do {
     r \<leftarrow> Insert (root t) key val;
     r' \<leftarrow> SetColor r ColorBlack;
     Some (t\<lparr>root := r'\<rparr>)
   }"

definition Tree_Delete :: "('k::linorder, 'v) Tree \<Rightarrow> 'k \<Rightarrow> ('k, 'v) Tree option" where
  "Tree_Delete t key = do {
     r \<leftarrow> Delete (root t) key;
     r' \<leftarrow> SetColor r ColorBlack;
     Some (t\<lparr>root := r'\<rparr>)
   }"

section \<open>Sequences of operations on a handle\<close>

text \<open>
  A client of the handle calls \<open>Insert\<close> and \<open>Delete\<close> one after the other.  A call that
  panics ends the run, so a run of operations yields a handle only when every call
  in it returned.
\<close>

datatype ('k, 'v) operation = OpInsert 'k 'v | OpDelete 'k

fun apply_op :: "('k::linorder, 'v) Tree \<Rightarrow> ('k, 'v) operation \<Rightarrow> ('k, 'v) Tree option" where
  "apply_op t (OpInsert key val) = Tree_Insert t key val"
| "apply_op t (OpDelete key) = Tree_Delete t key"

fun run_ops :: "('k::linorder, 'v) Tree \<Rightarrow> ('k, 'v) operation list \<Rightarrow> ('k, 'v) Tree option" where
  "run_ops t [] = Some t"
| "run_ops t (opn # ops) = do { t' \<leftarrow> apply_op t opn; run_ops t' ops }"

section \<open>The properties of the tree\<close>

text \<open>The in-order traversal: left subtree, the node, right subtree.\<close>

fun inorder :: "('k, 'v) node \<Rightarrow> ('k \<times> 'v) list" where
  "inorder Nil = []"
| "inorder (Node k v b l r) = inorder l @ (k, v) # inorder r"

definition keys_inorder :: "('k, 'v) node \<Rightarrow> 'k list" where
  "keys_inorder n = map fst (inorder n)"

text \<open>
  One number per path from a node down to an absent-child position: how many black
  nodes the path goes through.  The link into a node has the node's colour, so for
  the paths that start at the root this is the number of black links on the path,
  plus the same constant (the root's own colour) on every path.
\<close>

fun path_blacks :: "('k, 'v) node \<Rightarrow> nat list" where
  "path_blacks Nil = [0]"
| "path_blacks (Node k v b l r) = map (\<lambda>c. c + (if b then 1 else 0)) (path_blacks l @ path_blacks r)"

definition black_balanced :: "('k, 'v) node \<Rightarrow> bool" where
  "black_balanced n = list_all (\<lambda>c. c = hd (path_blacks n)) (path_blacks n)"

text \<open>No red node has a red right child.\<close>

fun no_red_right :: "('k, 'v) node \<Rightarrow> bool" where
  "no_red_right Nil = True"
| "no_red_right (Node k v b l r) = (\<not> (\<not> b \<and> IsRed r) \<and> no_red_right l \<and> no_red_right r)"

text \<open>No two red links in a row: no red node has a red child.\<close>

fun no_red_red :: "('k, 'v) node \<Rightarrow> bool" where
  "no_red_red Nil = True"
| "no_red_red (Node k v b l r) = (\<not> (\<not> b \<and> (IsRed l \<or> IsRed r)) \<and> no_red_red l \<and> no_red_red r)"

text \<open>
  Inserting into a list of entries sorted by key, or overwriting the value of the
  entry that has the key: what \<open>Insert\<close> does to the in-order traversal.
\<close>

fun put_sorted :: "'k::linorder \<Rightarrow> 'v \<Rightarrow> ('k \<times> 'v) list \<Rightarrow> ('k \<times> 'v) list" where
  "put_sorted key val [] = [(key, val)]"
| "put_sorted key val ((k, v) # xs) =
     (if key < k then (key, val) # (k, v) # xs
      else if key = k then (key, val) # xs
      else (k, v) # put_sorted key val xs)"

text \<open>
  The descent as the specification words it: right when the search key is greater
  than the node's key, left otherwise.
\<close>

fun Search_spec :: "('k::linorder, 'v::zero) node \<Rightarrow> 'k \<Rightarrow> 'v \<times> bool" where
  "Search_spec Nil key = (0, False)"
| "Search_spec (Node k v b l r) key =
     (if key = k then (v, True)
      else if k < key then Search_spec r key
      else Search_spec l key)"

text \<open>
  The scenario of the specification: insert the keys \<open>1\<close> to \<open>n\<close> in ascending
  order, then delete them in ascending order.  The value stored with a key is the key.
\<close>

definition ascending_scenario :: "nat \<Rightarrow> (nat, nat) operation list" where
  "ascending_scenario n = map (\<lambda>k. OpInsert k k) [1..<Suc n] @ map OpDelete [1..<Suc n]"

text \<open>The number of nodes of a tree.\<close>

fun node_count :: "('k, 'v) node \<Rightarrow> nat" where
  "node_count Nil = 0"
| "node_count (Node k v b l r) = Suc (node_count l + node_count r)"

text \<open>
  A run of the handle that ends in trees which break the colour rules and the black
  balance: twelve inserts, then \<open>Delete(6)\<close>, then \<open>Delete(4)\<close>.  The three trees are
  the roots of the handle after the inserts and after each of the two deletes.
\<close>

definition twelve_inserts :: "(nat, nat) operation list" where
  "twelve_inserts = map (\<lambda>k. OpInsert k k) [12, 2, 6, 11, 1, 8, 3, 4, 7, 9, 10, 5]"

definition tree_after_inserts :: "(nat, nat) node" where
  "tree_after_inserts =
     Node 6 6 True
      (Node 4 4 True
        (Node 2 2 False (Node 1 1 True Nil Nil) (Node 3 3 True Nil Nil))
        (Node 5 5 True Nil Nil))
      (Node 11 11 True
        (Node 8 8 False (Node 7 7 True Nil Nil) (Node 10 10 True (Node 9 9 False Nil Nil) Nil))
        (Node 12 12 True Nil Nil))"

definition tree_after_delete6 :: "(nat, nat) node" where
  "tree_after_delete6 =
     Node 4 4 True
      (Node 2 2 True (Node 1 1 True Nil Nil) (Node 3 3 True Nil Nil))
      (Node 11 11 True
        (Node 7 7 False (Node 5 5 True Nil Nil)
          (Node 9 9 False (Node 8 8 True Nil Nil) (Node 10 10 True Nil Nil)))
        (Node 12 12 True Nil Nil))"

definition tree_after_delete4 :: "(nat, nat) node" where
  "tree_after_delete4 =
     Node 5 5 True
      (Node 2 2 True (Node 1 1 True Nil Nil) (Node 3 3 True Nil Nil))
      (Node 11 11 True
        (Node 7 7 True Nil
          (Node 9 9 True (Node 8 8 True Nil Nil) (Node 10 10 True Nil Nil)))
        (Node 12 12 True Nil Nil))"

section \<open>Evaluation of calls on concrete trees\<close>

text \<open>
  With this congruence rule the simplifier evaluates a sequence of calls in program
  order: the continuation of a step is rewritten only once the step has a result.
\<close>

lemma bind_weak_cong: "m = m' \<Longrightarrow> Option.bind m f = Option.bind m' f"
  by simp

lemmas eval_defs =
  empty_Tree_def Tree_Insert_def Tree_Delete_def Tree_Search_def NewNode_def FixUp_def
  MoveRedLeft_def MoveRedRight_def Left_of_def Right_of_def Delete.simps DeleteMin.simps

lemma run_ops_append:
  "run_ops t (xs @ ys) = do { t' \<leftarrow> run_ops t xs; run_ops t' ys }"
  by (induction xs arbitrary: t) (auto split: bind_splits)

lemma run_twelve_inserts:
  "run_ops empty_Tree twelve_inserts = Some \<lparr>root = tree_after_inserts\<rparr>"
  by (simp add: twelve_inserts_def tree_after_inserts_def eval_defs cong: bind_weak_cong)

lemma run_delete6:
  "Tree_Delete \<lparr>root = tree_after_inserts\<rparr> 6 = Some \<lparr>root = tree_after_delete6\<rparr>"
  by (simp add: tree_after_inserts_def tree_after_delete6_def eval_defs cong: bind_weak_cong)

lemma run_delete4:
  "Tree_Delete \<lparr>root = tree_after_delete6\<rparr> 4 = Some \<lparr>root = tree_after_delete4\<rparr>"
  by (simp add: tree_after_delete6_def tree_after_delete4_def eval_defs cong: bind_weak_cong)

section \<open>The in-order traversal under rotation, colour flip and fix-up\<close>

lemma inorder_toggle [simp]: "inorder (toggle n) = inorder n"
  by (cases n) auto

lemma FlipColor_inorder: "FlipColor n = Some n' \<Longrightarrow> inorder n' = inorder n"
  by (cases n) auto

lemma Rotate_inorder: "Rotate n d = Some n' \<Longrightarrow> inorder n' = inorder n"
  by (cases n; cases d; cases "lchild n"; cases "rchild n") auto

lemma FixUp_inorder: "FixUp n = Some n' \<Longrightarrow> inorder n' = inorder n"
  unfolding FixUp_def
  by (auto split: bind_splits if_splits dest!: Rotate_inorder FlipColor_inorder)

lemma SetColor_inorder: "SetColor n c = Some n' \<Longrightarrow> inorder n' = inorder n"
  by (cases n; cases c) auto

text \<open>
  \<open>FixUp\<close> never dereferences nil on a node: it rotates left only where the right
  child is red, hence present, and right only where the left child is red.
\<close>

lemma FixUp_step1:
  "\<exists>k' v' b' l' r'. (if IsRed r then Rotate (Node k v b l r) Left else Some (Node k v b l r))
     = Some (Node k' v' b' l' r')"
  by (cases r) auto

lemma FixUp_step2:
  "\<exists>k' v' b' l' r'. (if c \<and> IsRed l then Rotate (Node k v b l r) Right else Some (Node k v b l r))
     = Some (Node k' v' b' l' r')"
  by (cases l) auto

lemma FixUp_total: "\<exists>k' v' b' l' r'. FixUp (Node k v b l r) = Some (Node k' v' b' l' r')"
proof -
  obtain k1 v1 b1 l1 r1 where s1:
    "(if IsRed r then Rotate (Node k v b l r) Left else Some (Node k v b l r))
       = Some (Node k1 v1 b1 l1 r1)"
    using FixUp_step1[of r k v b l] by auto
  define two where "two = (IsRed l1 \<and> IsRed (lchild l1))"
  have s2a: "(if IsRed l1 then do { ll \<leftarrow> Left_of l1; Some (IsRed ll) } else Some False) = Some two"
    by (cases l1) (auto simp: two_def Left_of_def)
  obtain k2 v2 b2 l2 r2 where s2:
    "(if two then Rotate (Node k1 v1 b1 l1 r1) Right else Some (Node k1 v1 b1 l1 r1))
       = Some (Node k2 v2 b2 l2 r2)"
    using FixUp_step2[of "IsRed (lchild l1)" l1 k1 v1 b1 r1] by (auto simp: two_def conj_commute)
  show ?thesis
    unfolding FixUp_def using s1 s2a s2
    by (simp add: Left_of_def Right_of_def)
qed

section \<open>Sorted lists of entries\<close>

lemma put_sorted_keys: "fst ` set (put_sorted key val xs) = insert key (fst ` set xs)"
proof (induction xs)
  case Nil
  then show ?case by simp
next
  case (Cons x xs)
  obtain k v where x: "x = (k, v)" by (cases x)
  show ?case unfolding x using Cons.IH by (simp add: insert_commute)
qed

lemma put_sorted_sorted:
  "sorted_wrt (<) (map fst xs) \<Longrightarrow> sorted_wrt (<) (map fst (put_sorted key val xs))"
proof (induction xs)
  case Nil
  then show ?case by simp
next
  case (Cons x xs)
  obtain k v where x: "x = (k, v)" by (cases x)
  have "k < y" if "y \<in> fst ` set (put_sorted key val xs)" and "k < key" for y
    using that Cons.prems x unfolding put_sorted_keys by auto
  then show ?case using Cons x by (auto simp: image_iff)
qed

lemma put_sorted_append:
  assumes "\<forall>x\<in>set xs. fst x < a"
  shows "put_sorted key val (xs @ (a, b) # ys) =
    (if key < a then put_sorted key val xs @ (a, b) # ys
     else if key = a then xs @ (key, val) # ys
     else xs @ (a, b) # put_sorted key val ys)"
  using assms by (induction xs) auto

lemma filter_key_above:
  "\<forall>x\<in>set xs. (key::'k::linorder) < fst x \<Longrightarrow> filter (\<lambda>e. fst e = key) xs = []"
  by (induction xs) auto

lemma put_sorted_one:
  "sorted_wrt (<) (map fst xs) \<Longrightarrow> filter (\<lambda>e. fst e = key) (put_sorted key val xs) = [(key, val)]"
proof (induction xs)
  case Nil
  then show ?case by simp
next
  case (Cons x xs)
  obtain k v where x: "x = (k, v)" by (cases x)
  have above: "\<forall>y\<in>set xs. k < fst y" using Cons.prems x by auto
  show ?case
  proof (cases "key < k")
    case True
    then have "\<forall>y\<in>set xs. key < fst y" using above by auto
    then show ?thesis using True x by (simp add: filter_key_above)
  next
    case False
    then show ?thesis using Cons x above by (auto simp: filter_key_above)
  qed
qed

lemma put_sorted_present:
  "sorted_wrt (<) (map fst xs) \<Longrightarrow> key \<in> fst ` set xs \<Longrightarrow>
     map fst (put_sorted key val xs) = map fst xs"
proof (induction xs)
  case Nil
  then show ?case by simp
next
  case (Cons x xs)
  obtain k v where x: "x = (k, v)" by (cases x)
  have above: "\<forall>y\<in>set xs. k < fst y" using Cons.prems x by auto
  show ?case
  proof (cases "key = k")
    case True
    then show ?thesis using x by simp
  next
    case False
    then have in_xs: "key \<in> fst ` set xs" using Cons.prems(2) x by auto
    then have "k < key" using above by auto
    then show ?thesis using Cons in_xs x by auto
  qed
qed

lemma sorted_inorder_Node:
  "sorted_wrt (<) (keys_inorder (Node (k::'k::linorder) v b l r)) \<longleftrightarrow>
     sorted_wrt (<) (keys_inorder l) \<and> sorted_wrt (<) (keys_inorder r) \<and>
     (\<forall>x\<in>set (inorder l). fst x < k) \<and> (\<forall>y\<in>set (inorder r). k < fst y)"
  by (fastforce simp: keys_inorder_def sorted_wrt_append)

section \<open>Insert returns, and what it does to the in-order traversal\<close>

lemma Insert_total: "\<exists>k' v' b' l' r'. Insert t key val = Some (Node k' v' b' l' r')"
proof (induction t)
  case Nil
  then show ?case by (auto simp: NewNode_def)
next
  case (Node k v b l r)
  then show ?case using FixUp_total by fastforce
qed

lemma Insert_inorder:
  "sorted_wrt (<) (keys_inorder t) \<Longrightarrow> Insert t key val = Some t' \<Longrightarrow>
     inorder t' = put_sorted key val (inorder t)"
proof (induction t arbitrary: t')
  case Nil
  then show ?case by (auto simp: NewNode_def)
next
  case (Node k v b l r)
  from Node.prems(1) have sl: "sorted_wrt (<) (keys_inorder l)"
    and sr: "sorted_wrt (<) (keys_inorder r)"
    and lt: "\<forall>x\<in>set (inorder l). fst x < k"
    by (simp_all add: sorted_inorder_Node)
  show ?case
  proof (cases "key = k")
    case True
    then show ?thesis using Node.prems(2) lt
      by (auto simp: put_sorted_append dest!: FixUp_inorder)
  next
    case neq: False
    show ?thesis
    proof (cases "key < k")
      case True
      then obtain l' where l': "Insert l key val = Some l'"
        and f: "FixUp (Node k v b l' r) = Some t'"
        using Node.prems(2) neq by (auto split: bind_splits)
      from Node.IH(1)[OF sl l'] FixUp_inorder[OF f] True lt show ?thesis
        by (simp add: put_sorted_append)
    next
      case False
      then obtain r' where r': "Insert r key val = Some r'"
        and f: "FixUp (Node k v b l r') = Some t'"
        using Node.prems(2) neq by (auto split: bind_splits)
      from Node.IH(2)[OF sr r'] FixUp_inorder[OF f] False neq lt show ?thesis
        by (simp add: put_sorted_append)
    qed
  qed
qed

lemma Tree_Insert_inorder:
  assumes "sorted_wrt (<) (keys_inorder (root t))"
  shows "\<exists>t'. Tree_Insert t key val = Some t'
     \<and> inorder (root t') = put_sorted key val (inorder (root t))"
proof -
  obtain k' v' b' l' r' where i: "Insert (root t) key val = Some (Node k' v' b' l' r')"
    using Insert_total[of "root t" key val] by auto
  from Insert_inorder[OF assms i] show ?thesis
    by (simp add: Tree_Insert_def i)
qed

lemma inserts_sorted:
  "sorted_wrt (<) (keys_inorder (root t)) \<Longrightarrow>
     \<exists>t'. run_ops t (map (\<lambda>(k, v). OpInsert k v) kvs) = Some t'
        \<and> sorted_wrt (<) (keys_inorder (root t'))
        \<and> set (keys_inorder (root t')) = set (keys_inorder (root t)) \<union> fst ` set kvs"
proof (induction kvs arbitrary: t)
  case Nil
  then show ?case by simp
next
  case (Cons kv kvs)
  obtain key val where kv: "kv = (key, val)" by (cases kv)
  obtain t1 where t1: "Tree_Insert t key val = Some t1"
    and io: "inorder (root t1) = put_sorted key val (inorder (root t))"
    using Tree_Insert_inorder[OF Cons.prems] by blast
  have s1: "sorted_wrt (<) (keys_inorder (root t1))"
    using Cons.prems io by (simp add: keys_inorder_def put_sorted_sorted)
  have k1: "set (keys_inorder (root t1)) = insert key (set (keys_inorder (root t)))"
    using io put_sorted_keys[of key val "inorder (root t)"] by (simp add: keys_inorder_def)
  from Cons.IH[OF s1] obtain t' where "run_ops t1 (map (\<lambda>(k, v). OpInsert k v) kvs) = Some t'"
    and "sorted_wrt (<) (keys_inorder (root t'))"
    and "set (keys_inorder (root t')) = set (keys_inorder (root t1)) \<union> fst ` set kvs"
    by blast
  then show ?case using t1 k1 kv by auto
qed

section \<open>Delete keeps the entries in order\<close>

text \<open>
  Whatever \<open>Delete\<close> returns, its in-order traversal is a subsequence of the one
  before, so the keys of every tree the handle can reach are strictly increasing.
\<close>

lemma MoveRedLeft_inorder: "MoveRedLeft n = Some n' \<Longrightarrow> inorder n' = inorder n"
proof (cases n)
  case Nil
  then show "MoveRedLeft n = Some n' \<Longrightarrow> inorder n' = inorder n"
    by (simp add: MoveRedLeft_def)
next
  case (Node k v b l r)
  assume "MoveRedLeft n = Some n'"
  then show "inorder n' = inorder n" using Node
    by (cases r; cases "lchild r"; cases "lchild (lchild r)")
      (auto simp: MoveRedLeft_def Left_of_def Right_of_def split: if_splits bind_splits)
qed

lemma MoveRedRight_inorder: "MoveRedRight n = Some n' \<Longrightarrow> inorder n' = inorder n"
proof (cases n)
  case Nil
  then show "MoveRedRight n = Some n' \<Longrightarrow> inorder n' = inorder n"
    by (simp add: MoveRedRight_def)
next
  case (Node k v b l r)
  assume "MoveRedRight n = Some n'"
  then show "inorder n' = inorder n" using Node
    by (cases l; cases "lchild l")
      (auto simp: MoveRedRight_def Left_of_def split: if_splits bind_splits)
qed

lemma Rotate_keeps: "Rotate n d = Some n' \<Longrightarrow> inorder n' = inorder n \<and> size n' = size n"
  by (simp add: Rotate_inorder Rotate_size)

lemma MoveRedLeft_keeps: "MoveRedLeft n = Some n' \<Longrightarrow> inorder n' = inorder n \<and> size n' = size n"
  by (simp add: MoveRedLeft_inorder MoveRedLeft_size)

lemma MoveRedRight_keeps: "MoveRedRight n = Some n' \<Longrightarrow> inorder n' = inorder n \<and> size n' = size n"
  by (simp add: MoveRedRight_inorder MoveRedRight_size)

lemma DeleteMin_cases:
  assumes "DeleteMin t = Some t'"
  obtains (leaf) k v b r where "t = Node k v b Nil r" and "t' = Nil"
  | (descend) k v b l1 r l' where "inorder (Node k v b l1 r) = inorder t"
      and "size (Node k v b l1 r) = size t"
      and "DeleteMin l1 = Some l'" and "FixUp (Node k v b l' r) = Some t'"
proof -
  note a = assms[unfolded DeleteMin.simps[of t]]
  from a obtain l where l: "Left_of t = Some l"
    by (auto split: bind_splits)
  show ?thesis
  proof (cases "l = Nil")
    case True
    with a l have "t' = Nil" by simp
    moreover from l True obtain k v b r where "t = Node k v b Nil r"
      by (cases t) (auto simp: Left_of_def)
    ultimately show ?thesis using leaf by blast
  next
    case False
    with a l obtain root1 l1 l' root2 where
      io: "inorder root1 = inorder t" and sz: "size root1 = size t"
      and l1: "Left_of root1 = Some l1" and d: "DeleteMin l1 = Some l'"
      and r2: "set_children root1 Left l' = Some root2" and f: "FixUp root2 = Some t'"
      by (auto split: bind_splits if_splits dest!: MoveRedLeft_keeps)
    from l1 r2 obtain k1 v1 b1 rr where "root1 = Node k1 v1 b1 l1 rr" "root2 = Node k1 v1 b1 l' rr"
      by (cases root1) (auto simp: Left_of_def)
    with io sz d f descend show ?thesis by blast
  qed
qed

lemma DeleteMin_Nil [simp]: "DeleteMin Nil = None"
  by (simp add: DeleteMin.simps Left_of_def)

lemma DeleteMin_subseq: "DeleteMin t = Some t' \<Longrightarrow> subseq (inorder t') (tl (inorder t))"
proof (induction t arbitrary: t' rule: measure_induct_rule[where f = size])
  case (less t)
  from less.prems show ?case
  proof (cases rule: DeleteMin_cases)
    case (leaf k v b r)
    then show ?thesis by simp
  next
    case (descend k v b l1 r l')
    have "size l1 < size t" using descend(2) by simp
    from less.IH[OF this descend(3)] have ih: "subseq (inorder l') (tl (inorder l1))" .
    have ne: "inorder l1 \<noteq> []" using descend(3) by (cases l1) auto
    have "inorder t' = inorder l' @ (k, v) # inorder r"
      using FixUp_inorder[OF descend(4)] by simp
    moreover have "inorder t = inorder l1 @ (k, v) # inorder r"
      using descend(1) by simp
    then have "tl (inorder t) = tl (inorder l1) @ (k, v) # inorder r"
      using ne by simp
    ultimately show ?thesis using ih by (simp add: list_emb_append_mono)
  qed
qed

lemma SearchMin_hd:
  "SearchMin r = Some m \<Longrightarrow> \<exists>k v b l' r'. m = Node k v b l' r' \<and> (\<exists>rest. inorder r = (k, v) # rest)"
  by (induction r) (auto split: if_splits)

lemma Delete_cases:
  assumes "Delete t key = Some t'"
  obtains (gone) "t' = Nil"
  | (left) k v b l1 r l' where "inorder (Node k v b l1 r) = inorder t"
      and "size (Node k v b l1 r) = size t"
      and "Delete l1 key = Some l'" and "FixUp (Node k v b l' r) = Some t'"
  | (right) k v b l r2 r' where "inorder (Node k v b l r2) = inorder t"
      and "size (Node k v b l r2) = size t"
      and "Delete r2 key = Some r'" and "FixUp (Node k v b l r') = Some t'"
  | (here) k v b l r2 r' m where "inorder (Node k v b l r2) = inorder t"
      and "SearchMin r2 = Some m" and "DeleteMin r2 = Some r'"
      and "FixUp (Node (Key m) (Value m) b l r') = Some t'"
proof (cases "t' = Nil")
  case True
  then show ?thesis using gone by blast
next
  case notgone: False
  note a = assms[unfolded Delete.simps[of t key]]
  from a obtain rootKey where rk: "Key_of t = Some rootKey"
    by (auto split: bind_splits)
  show ?thesis
  proof (cases "key < rootKey")
    case True
    with a rk obtain root1 l1 l' root2 where
      io: "inorder root1 = inorder t" and sz: "size root1 = size t"
      and l1: "Left_of root1 = Some l1" and d: "Delete l1 key = Some l'"
      and r2: "set_children root1 Left l' = Some root2" and f: "FixUp root2 = Some t'"
      by (auto split: bind_splits if_splits dest!: MoveRedLeft_keeps)
    from l1 r2 obtain k1 v1 b1 rr where "root1 = Node k1 v1 b1 l1 rr" "root2 = Node k1 v1 b1 l' rr"
      by (cases root1) (auto simp: Left_of_def)
    with io sz d f left show ?thesis by blast
  next
    case False
    with a rk notgone obtain root2 key2 r2 where
      io: "inorder root2 = inorder t" and sz: "size root2 = size t"
      and k2: "Key_of root2 = Some key2" and rr: "Right_of root2 = Some r2"
      and rest: "(if key = key2 then do {
           minNode \<leftarrow> SearchMin r2;
           minKey \<leftarrow> Key_of minNode;
           root3 \<leftarrow> set_Key root2 minKey;
           minValue \<leftarrow> Value_of minNode;
           root4 \<leftarrow> set_Value root3 minValue;
           r' \<leftarrow> DeleteMin r2;
           root5 \<leftarrow> set_children root4 Right r';
           FixUp root5
         } else do {
           r' \<leftarrow> Delete r2 key;
           root3 \<leftarrow> set_children root2 Right r';
           FixUp root3
         }) = Some t'"
      by (auto split: bind_splits if_splits dest!: Rotate_keeps MoveRedRight_keeps)
    from rr obtain k v b l where root2: "root2 = Node k v b l r2"
      by (cases root2) (auto simp: Right_of_def)
    show ?thesis
    proof (cases "key = key2")
      case True
      with rest root2 obtain m r' where m: "SearchMin r2 = Some m" and dm: "DeleteMin r2 = Some r'"
        and f: "do { minKey \<leftarrow> Key_of m; root3 \<leftarrow> set_Key root2 minKey;
                  minValue \<leftarrow> Value_of m; root4 \<leftarrow> set_Value root3 minValue;
                  root5 \<leftarrow> set_children root4 Right r'; FixUp root5 } = Some t'"
        by (auto split: bind_splits)
      from SearchMin_hd[OF m] obtain mk mv mb ml mr where "m = Node mk mv mb ml mr" by blast
      with f root2 have "FixUp (Node (Key m) (Value m) b l r') = Some t'" by simp
      with io root2 m dm here show ?thesis by blast
    next
      case False
      with rest root2 obtain r' where "Delete r2 key = Some r'" "FixUp (Node k v b l r') = Some t'"
        by (auto split: bind_splits)
      with io sz root2 right show ?thesis by blast
    qed
  qed
qed

lemma Delete_subseq: "Delete t key = Some t' \<Longrightarrow> subseq (inorder t') (inorder t)"
proof (induction t arbitrary: t' rule: measure_induct_rule[where f = size])
  case (less t)
  from less.prems show ?case
  proof (cases rule: Delete_cases)
    case gone
    then show ?thesis by simp
  next
    case (left k v b l1 r l')
    have "size l1 < size t" using left(2) by simp
    from less.IH[OF this left(3)] have "subseq (inorder l') (inorder l1)" .
    moreover have "inorder t' = inorder l' @ (k, v) # inorder r"
      using FixUp_inorder[OF left(4)] by simp
    moreover have "inorder t = inorder l1 @ (k, v) # inorder r"
      using left(1) by simp
    ultimately show ?thesis by (simp add: list_emb_append_mono)
  next
    case (right k v b l r2 r')
    have "size r2 < size t" using right(2) by simp
    from less.IH[OF this right(3)] have "subseq (inorder r') (inorder r2)" .
    moreover have "inorder t' = inorder l @ (k, v) # inorder r'"
      using FixUp_inorder[OF right(4)] by simp
    moreover have "inorder t = inorder l @ (k, v) # inorder r2"
      using right(1) by simp
    ultimately show ?thesis by (simp add: list_emb_append_mono)
  next
    case (here k v b l r2 r' m)
    from SearchMin_hd[OF here(2)] obtain mk mv mb ml mr rest
      where m: "m = Node mk mv mb ml mr" and r2: "inorder r2 = (mk, mv) # rest" by blast
    from DeleteMin_subseq[OF here(3)] r2 have "subseq (inorder r') rest" by simp
    then have "subseq ((mk, mv) # inorder r') ((k, v) # (mk, mv) # rest)"
      by (intro list_emb_Cons subseq_Cons2)
    then have "subseq (inorder l @ (mk, mv) # inorder r') (inorder l @ (k, v) # (mk, mv) # rest)"
      by (simp only: subseq_append')
    moreover have "inorder t' = inorder l @ (mk, mv) # inorder r'"
      using FixUp_inorder[OF here(4)] m by simp
    moreover have "inorder t = inorder l @ (k, v) # (mk, mv) # rest"
      using here(1) r2 by simp
    ultimately show ?thesis by simp
  qed
qed

lemma sorted_wrt_subseq:
  "subseq xs ys \<Longrightarrow> sorted_wrt P ys \<Longrightarrow> sorted_wrt P xs"
proof (induction rule: list_emb.induct)
  case (list_emb_Nil ys)
  then show ?case by simp
next
  case (list_emb_Cons xs ys y)
  then show ?case by simp
next
  case (list_emb_Cons2 x y xs ys)
  then show ?case using list_emb_set[OF list_emb_Cons2(2)] by fastforce
qed

lemma Tree_Delete_sorted:
  assumes "sorted_wrt (<) (keys_inorder (root t))" and "Tree_Delete t key = Some t'"
  shows "sorted_wrt (<) (keys_inorder (root t'))"
proof -
  from assms(2) obtain r r' where d: "Delete (root t) key = Some r"
    and sc: "SetColor r ColorBlack = Some r'" and t': "t' = t\<lparr>root := r'\<rparr>"
    by (auto simp: Tree_Delete_def split: bind_splits)
  have "subseq (inorder r') (inorder (root t))"
    using Delete_subseq[OF d] SetColor_inorder[OF sc] by simp
  then have "subseq (keys_inorder r') (keys_inorder (root t))"
    unfolding keys_inorder_def by (rule subseq_map)
  from sorted_wrt_subseq[OF this assms(1)] t' show ?thesis by simp
qed

lemma reachable_sorted:
  "sorted_wrt (<) (keys_inorder (root t)) \<Longrightarrow> run_ops t ops = Some t' \<Longrightarrow>
     sorted_wrt (<) (keys_inorder (root t'))"
proof (induction ops arbitrary: t)
  case Nil
  then show ?case by simp
next
  case (Cons opn ops)
  from Cons.prems(2) obtain t1 where a: "apply_op t opn = Some t1" and r: "run_ops t1 ops = Some t'"
    by (auto split: bind_splits)
  have "sorted_wrt (<) (keys_inorder (root t1))"
  proof (cases opn)
    case (OpInsert key val)
    with a Tree_Insert_inorder[OF Cons.prems(1), of key val] Cons.prems(1) show ?thesis
      by (auto simp: keys_inorder_def put_sorted_sorted)
  next
    case (OpDelete key)
    with a Tree_Delete_sorted[OF Cons.prems(1)] show ?thesis by simp
  qed
  from Cons.IH[OF this r] show ?case .
qed

lemma reachable_from_empty_sorted:
  "run_ops empty_Tree ops = Some t \<Longrightarrow> sorted_wrt (<) (keys_inorder (root t))"
  using reachable_sorted[of empty_Tree ops t] by (simp add: empty_Tree_def keys_inorder_def)

section \<open>The handle never returns from a delete with an empty tree\<close>

lemma Tree_Delete_not_empty: "Tree_Delete t key \<noteq> Some \<lparr>root = Nil\<rparr>"
proof
  assume a: "Tree_Delete t key = Some \<lparr>root = Nil\<rparr>"
  then obtain r r' where sc: "SetColor r ColorBlack = Some r'"
    and eq: "t\<lparr>root := r'\<rparr> = \<lparr>root = Nil\<rparr>"
    by (auto simp: Tree_Delete_def split: bind_splits)
  from eq have "root (t\<lparr>root := r'\<rparr>) = root \<lparr>root = Nil\<rparr>"
    by (rule arg_cong)
  then have "r' = Nil" by simp
  with sc show False by (cases r) auto
qed

lemma scenario_last:
  "ascending_scenario (Suc n) =
     (map (\<lambda>k. OpInsert k k) [1..<Suc (Suc n)] @ map OpDelete [1..<Suc n]) @ [OpDelete (Suc n)]"
  by (simp add: ascending_scenario_def)

lemma scenario_never_empty:
  "run_ops t (ascending_scenario (Suc n)) \<noteq> Some \<lparr>root = Nil\<rparr>"
  unfolding scenario_last run_ops_append
  using Tree_Delete_not_empty
  by (auto split: bind_splits)

text \<open>
  A small instance of the scenario, evaluated: with the keys \<open>1\<close> to \<open>8\<close> every call but
  the last returns, the tree before the last call holds the key \<open>8\<close> alone, and the last
  \<open>Delete\<close> panics.
\<close>

lemma scenario_8:
  "ascending_scenario 8 =
     map (\<lambda>k. OpInsert k k) [1, 2, 3, 4, 5, 6, 7, 8] @ map OpDelete [1, 2, 3, 4, 5, 6, 7, 8]"
proof -
  have "[1..<Suc 8] = [1, 2, 3, 4, 5, 6, 7, 8::nat]"
    by (simp add: upt_conv_Cons)
  then show ?thesis unfolding ascending_scenario_def by (simp only:)
qed

lemma ascending_scenario_8_before_last:
  "run_ops empty_Tree (butlast (ascending_scenario 8)) = Some \<lparr>root = Node 8 8 True Nil Nil\<rparr>"
  unfolding scenario_8
  by (simp add: eval_defs cong: bind_weak_cong)

lemma ascending_scenario_8_panics:
  "run_ops empty_Tree (ascending_scenario 8) = None"
  unfolding scenario_8
  by (simp add: eval_defs cong: bind_weak_cong)

section \<open>The claims\<close>

text \<open>
  Claim C1.  After \<open>Insert(k, v)\<close> a \<open>Search(k)\<close> on the handle is to return \<open>(v, true)\<close>, and
  after a following \<open>Delete(k)\<close> it is to return not-found.  The code does neither in
  general.  On the empty tree, \<open>Insert(2, 5)\<close> and \<open>Insert(1, 7)\<close> build the root \<open>2\<close> with the
  red left child \<open>1\<close>, and \<open>Search(1)\<close> then reports not-found, because \<open>Search\<close> walks to
  the right child when the key is smaller.  And \<open>Insert(1, 7)\<close> followed by \<open>Delete(1)\<close>
  panics instead of leaving a tree in which \<open>1\<close> is not found.
\<close>

theorem roundtrip_fails:
  "run_ops empty_Tree [OpInsert (2::nat) (5::nat), OpInsert 1 7]
     = Some \<lparr>root = Node 2 5 True (Node 1 7 False Nil Nil) Nil\<rparr>
   \<and> Tree_Search \<lparr>root = Node (2::nat) (5::nat) True (Node 1 7 False Nil Nil) Nil\<rparr> 1 = (0, False)
   \<and> run_ops empty_Tree [OpInsert (1::nat) (7::nat), OpDelete 1] = None"
  by (simp add: eval_defs cong: bind_weak_cong)

text \<open>
  Claim C2.  \<open>Search\<close> is to move to the right child exactly when the search key is
  greater than the node's key.  The code moves right exactly when the search key is
  smaller: in the tree with root \<open>2\<close> and left child \<open>1\<close> the search for \<open>1\<close> goes to the
  absent right child and reports not-found, where the descent the claim describes
  finds the key.
\<close>

theorem Search_descends_wrong_side:
  "Search (Node (2::nat) (5::nat) True (Node 1 7 False Nil Nil) Nil) 1 = (0, False)
   \<and> Search_spec (Node (2::nat) (5::nat) True (Node 1 7 False Nil Nil) Nil) 1 = (7, True)"
  by simp

text \<open>
  Claim C3.  Every tree reachable from the empty tree by \<open>Insert\<close> and \<open>Delete\<close> on the
  handle is to be black-balanced.  The run of twelve inserts followed by \<open>Delete(6)\<close> and
  \<open>Delete(4)\<close> returns from every call and ends in a tree that is not: below the node \<open>7\<close>
  the left path ends at once, the right paths go through two more black nodes.
\<close>

theorem delete_breaks_black_balance:
  "run_ops empty_Tree (twelve_inserts @ [OpDelete 6, OpDelete 4])
     = Some \<lparr>root = tree_after_delete4\<rparr>
   \<and> \<not> black_balanced tree_after_delete4"
  by (simp add: run_ops_append run_twelve_inserts run_delete6 run_delete4)
     (simp add: tree_after_delete4_def black_balanced_def)

text \<open>
  Claim C4.  In every tree reachable from the empty tree by \<open>Insert\<close> and \<open>Delete\<close> on the
  handle no red node is to have a red right child, and no two red links are to follow
  one another.  The run of twelve inserts followed by \<open>Delete(6)\<close> returns from every
  call and ends in a tree in which the red node \<open>7\<close> has the red right child \<open>9\<close>.
\<close>

theorem delete_breaks_red_rules:
  "run_ops empty_Tree (twelve_inserts @ [OpDelete 6]) = Some \<lparr>root = tree_after_delete6\<rparr>
   \<and> \<not> no_red_right tree_after_delete6 \<and> \<not> no_red_red tree_after_delete6"
  by (simp add: run_ops_append run_twelve_inserts run_delete6)
     (simp add: tree_after_delete6_def)

text \<open>
  Claim C5.  Inserting the keys \<open>1\<close> to \<open>1000\<close> in ascending order and deleting them in
  ascending order is to leave the tree empty.  The run does not end with the handle of
  the empty tree: its last call is a \<open>Delete\<close> on the handle, and that call never returns
  with an absent root.
\<close>

theorem ascending_scenario_not_empty:
  "run_ops empty_Tree (ascending_scenario 1000) \<noteq> Some empty_Tree"
proof -
  have "(1000::nat) = Suc 999" by simp
  then show ?thesis using scenario_never_empty[of empty_Tree 999]
    by (simp add: empty_Tree_def)
qed

text \<open>
  Claim C6.  On a tree with exactly one key, the recursive \<open>Delete\<close> of that key returns
  the absent root, \<open>SetColor\<close> on the absent root dereferences nil, and so \<open>Delete\<close> on the
  handle panics; and whenever the recursive \<open>Delete\<close> returns the absent root, \<open>Delete\<close>
  on the handle panics.
\<close>

theorem Delete_last_key_panics:
  "Delete (Node key val b Nil Nil) key = Some Nil
   \<and> SetColor (Nil :: ('k::linorder, 'v) node) ColorBlack = None
   \<and> Tree_Delete \<lparr>root = Node (key::'k) (val::'v) b Nil Nil\<rparr> key = None
   \<and> (\<forall>(t::('k, 'v) Tree) k. Delete (root t) k = Some Nil \<longrightarrow> Tree_Delete t k = None)"
  by (simp add: eval_defs cong: bind_weak_cong)

theorem Delete_last_key_panics_witness:
  "Delete (root \<lparr>root = Node (1::nat) (7::nat) True Nil Nil\<rparr>) 1 = Some Nil
   \<and> Tree_Delete \<lparr>root = Node (1::nat) (7::nat) True Nil Nil\<rparr> 1 = None"
  using Delete_last_key_panics [of 1 7 True]
  by (simp add: eval_defs cong: bind_weak_cong)

text \<open>
  Claim C7.  In a tree whose keys are in search-tree order, as they are in every tree
  the handle can reach, \<open>Insert\<close> with a key that is present returns, overwrites the
  value of that key and changes nothing else: the entries in order are the old ones
  with the value of the key replaced, the keys in order are the same, exactly one
  entry has the key and it has the new value, and the number of nodes is the same.
\<close>

theorem Insert_overwrites:
  assumes "sorted_wrt (<) (keys_inorder t)" and "key \<in> set (keys_inorder t)"
  shows "\<exists>t'. Insert t key val = Some t'
     \<and> inorder t' = put_sorted key val (inorder t)
     \<and> keys_inorder t' = keys_inorder t
     \<and> filter (\<lambda>e. fst e = key) (inorder t') = [(key, val)]
     \<and> node_count t' = node_count t"
proof -
  obtain t' where i: "Insert t key val = Some t'"
    using Insert_total[of t key val] by blast
  have io: "inorder t' = put_sorted key val (inorder t)"
    using Insert_inorder[OF assms(1) i] .
  have ks: "keys_inorder t' = keys_inorder t"
    using put_sorted_present[of "inorder t" key val] assms io by (simp add: keys_inorder_def)
  have one: "filter (\<lambda>e. fst e = key) (inorder t') = [(key, val)]"
    using put_sorted_one[of "inorder t" key val] assms(1) io by (simp add: keys_inorder_def)
  have "length (inorder n) = node_count n" for n :: "('a, 'b) node"
    by (induction n) auto
  then have "node_count t' = node_count t"
    using ks by (metis keys_inorder_def length_map)
  with i io ks one show ?thesis by blast
qed

theorem Insert_overwrites_witness:
  "sorted_wrt (<) (keys_inorder (Node (2::nat) (5::nat) True (Node 1 7 False Nil Nil) Nil))
   \<and> 1 \<in> set (keys_inorder (Node (2::nat) (5::nat) True (Node 1 7 False Nil Nil) Nil))
   \<and> Insert (Node (2::nat) (5::nat) True (Node 1 7 False Nil Nil) Nil) 1 9
       = Some (Node 2 5 True (Node 1 9 False Nil Nil) Nil)"
  using Insert_overwrites [of "Node (2::nat) (5::nat) True (Node 1 7 False Nil Nil) Nil" 1 9]
  by (simp add: keys_inorder_def eval_defs cong: bind_weak_cong)

text \<open>
  Claim C8.  Every sequence of inserts on the handle of the empty tree returns from
  every call, and the in-order traversal of the tree it builds yields the keys in
  strictly increasing order; the keys of the tree are the inserted ones.
\<close>

theorem inserts_keep_bst_order:
  "\<exists>t. run_ops empty_Tree (map (\<lambda>(k, v). OpInsert k v) kvs) = Some t
     \<and> sorted_wrt (<) (keys_inorder (root t))
     \<and> set (keys_inorder (root t)) = fst ` set kvs"
  using inserts_sorted[of empty_Tree kvs] by (simp add: empty_Tree_def keys_inorder_def)

text \<open>
  Claim C9.  Where the child of the subtree root opposite to the direction, the pivot,
  exists, \<open>Rotate\<close> returns the pivot as the new subtree root.  The old root is its
  child on the direction's side and keeps its key and value; the pivot's former child
  on the direction's side is the old root's child on the opposite side; the new root
  has the old root's former colour and the old root is red; the pivot's other child
  and the old root's child on the direction's side are where they were.
\<close>

theorem Rotate_effect:
  assumes "children old (opposite direction) = Some pivot" and "pivot \<noteq> Nil"
  shows "\<exists>newRoot oldRoot.
      Rotate old direction = Some newRoot
    \<and> Key_of newRoot = Key_of pivot \<and> Value_of newRoot = Value_of pivot
    \<and> children newRoot direction = Some oldRoot
    \<and> Key_of oldRoot = Key_of old \<and> Value_of oldRoot = Value_of old
    \<and> children oldRoot (opposite direction) = children pivot direction
    \<and> isBlack_of newRoot = isBlack_of old
    \<and> isBlack_of oldRoot = Some False
    \<and> children newRoot (opposite direction) = children pivot (opposite direction)
    \<and> children oldRoot direction = children old direction"
  using assms by (cases old; cases direction; cases pivot) auto

theorem Rotate_effect_witness:
  "children (Node (4::nat) (40::nat) True
       (Node 2 20 False (Node 1 10 True Nil Nil) (Node 3 30 True Nil Nil))
       (Node 5 50 True Nil Nil)) (opposite Right)
     = Some (Node 2 20 False (Node 1 10 True Nil Nil) (Node 3 30 True Nil Nil))
   \<and> Rotate (Node (4::nat) (40::nat) True
       (Node 2 20 False (Node 1 10 True Nil Nil) (Node 3 30 True Nil Nil))
       (Node 5 50 True Nil Nil)) Right
     = Some (Node 2 20 True (Node 1 10 True Nil Nil)
         (Node 4 40 False (Node 3 30 True Nil Nil) (Node 5 50 True Nil Nil)))"
  using Rotate_effect [of "Node (4::nat) (40::nat) True
       (Node 2 20 False (Node 1 10 True Nil Nil) (Node 3 30 True Nil Nil))
       (Node 5 50 True Nil Nil)"
      Right "Node 2 20 False (Node 1 10 True Nil Nil) (Node 3 30 True Nil Nil)"]
  by simp

text \<open>
  Claim C10.  Whenever \<open>Search\<close> reports not-found, the value it returns with the flag
  is the zero value of the value type.
\<close>

theorem Search_not_found_zero:
  "\<not> snd (Search n key) \<Longrightarrow> fst (Search n key) = 0"
  by (induction n) auto

theorem Search_not_found_zero_witness:
  "\<not> snd (Search (Node (2::nat) (5::nat) True (Node 1 7 False Nil Nil) Nil) 3)
   \<and> fst (Search (Node (2::nat) (5::nat) True (Node 1 7 False Nil Nil) Nil) 3) = 0"
  using Search_not_found_zero [of "Node (2::nat) (5::nat) True (Node 1 7 False Nil Nil) Nil" 3]
  by simp

end
